theory Spec2Isabelle
  imports Main "HOL-Library.AList"
begin

section \<open>QuicKey: tab recency tracking and the tab jump list\<close>

text \<open>
  The development embeds the two classes of the background module that tracks tab recency:
  \<^verbatim>\<open>TabRecency\<close> (logical clock, recency cache, debounce of short visits) and
  \<^verbatim>\<open>TabJumpList\<close> (a frozen snapshot of tab ids with an active index and a set of
  tombstones).

  Tab identifiers, logical timestamps and wall-clock instants (milliseconds) are JavaScript
  numbers holding integers; they are modelled as \<^typ>\<open>int\<close>. The sentinel \<open>-1\<close> that the
  source uses for "no tab" is kept as the integer \<open>-1\<close>. \<^verbatim>\<open>null\<close> fields are
  \<^typ>\<open>'a option\<close> fields, with \<open>None\<close> for \<^verbatim>\<open>null\<close>.
\<close>

subsection \<open>TabJumpList\<close>

record TabJumpList =
  tabs :: "int list"
  activeIdx :: int
  deletedTabs :: "int set"

text \<open>
  \<^verbatim>\<open>constructor(tabs)\<close>: the active index is \<^verbatim>\<open>tabs.length - 1\<close>, which is
  \<open>-1\<close> for an empty array.
\<close>

definition TabJumpList_new :: "int list \<Rightarrow> TabJumpList" where
  "TabJumpList_new ts = \<lparr>tabs = ts, activeIdx = int (length ts) - 1, deletedTabs = {}\<rparr>"

text \<open>
  An array read \<^verbatim>\<open>xs[i]\<close>: JavaScript yields \<^verbatim>\<open>undefined\<close> outside the array
  (also at index \<open>-1\<close>); \<open>None\<close> stands for \<^verbatim>\<open>undefined\<close>.
\<close>

definition array_get :: "int list \<Rightarrow> int \<Rightarrow> int option" where
  "array_get xs i = (if 0 \<le> i \<and> i < int (length xs) then Some (xs ! nat i) else None)"

text \<open>\<^verbatim>\<open>this.tabs[this.activeIdx]\<close>, the tab the jump list believes to be active.\<close>

definition activeTab :: "TabJumpList \<Rightarrow> int option" where
  "activeTab jl = array_get (tabs jl) (activeIdx jl)"

text \<open>
  \<^verbatim>\<open>isCoherent(currentTabId)\<close>: strict equality of \<^verbatim>\<open>this.tabs[this.activeIdx]\<close>
  with a tab id; \<^verbatim>\<open>undefined\<close> is equal to no number.
\<close>

definition isCoherent :: "TabJumpList \<Rightarrow> int \<Rightarrow> bool" where
  "isCoherent jl currentTabId \<longleftrightarrow> activeTab jl = Some currentTabId"

text \<open>
  \<^verbatim>\<open>deregister(tabId)\<close> of the jump list: returns \<^verbatim>\<open>true\<close> without touching the object
  when the active tab is removed, otherwise adds the id to \<^verbatim>\<open>deletedTabs\<close> and returns
  \<^verbatim>\<open>false\<close>. The loose comparison \<^verbatim>\<open>undefined == tabId\<close> is false for a number.
\<close>

definition TabJumpList_deregister :: "int \<Rightarrow> TabJumpList \<Rightarrow> bool \<times> TabJumpList" where
  "TabJumpList_deregister tabId jl =
     (if activeTab jl = Some tabId then (True, jl)
      else (False, jl\<lparr>deletedTabs := insert tabId (deletedTabs jl)\<rparr>))"

text \<open>
  The scanning loop of \<^verbatim>\<open>getJumpBackTabId\<close>,
  \<^verbatim>\<open>for (let i = this.activeIdx - 1; i >= 0; i--)\<close>, with its loop variables
  \<^verbatim>\<open>candidateIdx\<close> and \<^verbatim>\<open>need\<close>; the result is the value of \<^verbatim>\<open>candidateIdx\<close>
  when the loop is left. The reads \<^verbatim>\<open>this.tabs[i]\<close> are inside the array whenever
  \<open>activeIdx \<le> length tabs\<close>, which \<open>jl_ok\<close> below guarantees.
\<close>

function back_loop :: "TabJumpList \<Rightarrow> int \<Rightarrow> int \<Rightarrow> int \<Rightarrow> int" where
  "back_loop jl i candidateIdx need =
     (if 0 \<le> i then
        (if tabs jl ! nat i \<in> deletedTabs jl then back_loop jl (i - 1) candidateIdx need
         else if need - 1 \<le> 0 then i
         else back_loop jl (i - 1) i (need - 1))
      else candidateIdx)"
  by pat_completeness auto
termination
  by (relation "measure (\<lambda>(jl, i, c, n). nat (i + 1))") auto

declare back_loop.simps [simp del]

definition getJumpBackTabId :: "TabJumpList \<Rightarrow> int \<times> TabJumpList" where
  "getJumpBackTabId jl =
     (let candidateIdx = back_loop jl (activeIdx jl - 1) (- 1) 1
      in if candidateIdx = - 1 then (- 1, jl)
         else (tabs jl ! nat candidateIdx, jl\<lparr>activeIdx := candidateIdx\<rparr>))"

text \<open>
  The loop of \<^verbatim>\<open>getJumpForwardTabId\<close>,
  \<^verbatim>\<open>for (let i = this.activeIdx + 1; i < this.tabs.length; i++)\<close>. The reads are inside the
  array whenever \<open>- 1 \<le> activeIdx\<close>.
\<close>

function forward_loop :: "TabJumpList \<Rightarrow> int \<Rightarrow> int \<Rightarrow> int \<Rightarrow> int" where
  "forward_loop jl i candidateIdx need =
     (if i < int (length (tabs jl)) then
        (if tabs jl ! nat i \<in> deletedTabs jl then forward_loop jl (i + 1) candidateIdx need
         else if need - 1 \<le> 0 then i
         else forward_loop jl (i + 1) i (need - 1))
      else candidateIdx)"
  by pat_completeness auto
termination
  by (relation "measure (\<lambda>(jl, i, c, n). nat (int (length (tabs jl)) - i))") auto

declare forward_loop.simps [simp del]

definition getJumpForwardTabId :: "TabJumpList \<Rightarrow> int \<times> TabJumpList" where
  "getJumpForwardTabId jl =
     (let candidateIdx = forward_loop jl (activeIdx jl + 1) (- 1) 1
      in if candidateIdx = - 1 then (- 1, jl)
         else (tabs jl ! nat candidateIdx, jl\<lparr>activeIdx := candidateIdx\<rparr>))"

text \<open>
  The range of the active index: the constructor establishes it and both traversals keep it.
  Inside it every array read of the two loops is in range.
\<close>

definition jl_ok :: "TabJumpList \<Rightarrow> bool" where
  "jl_ok jl \<longleftrightarrow> - 1 \<le> activeIdx jl \<and> activeIdx jl < int (length (tabs jl))"

text \<open>
  A sequence of traversal calls on one jump list, with the ids they return in call order.
\<close>

datatype jump = Back | Forward

fun jump_call :: "jump \<Rightarrow> TabJumpList \<Rightarrow> int \<times> TabJumpList" where
  "jump_call Back jl = getJumpBackTabId jl"
| "jump_call Forward jl = getJumpForwardTabId jl"

fun jump_calls :: "jump list \<Rightarrow> TabJumpList \<Rightarrow> int list \<times> TabJumpList" where
  "jump_calls [] jl = ([], jl)"
| "jump_calls (j # js) jl =
     (case jump_call j jl of (r, jl') \<Rightarrow>
        (case jump_calls js jl' of (rs, jl'') \<Rightarrow> (r # rs, jl'')))"

subsection \<open>TabRecency\<close>

definition TIME_DELTA :: int where
  "TIME_DELTA = 250"

text \<open>
  The fields of the class. \<open>cache\<close> is a JavaScript object used as a dictionary from tab id
  to logical timestamp; it is an association list in insertion order, the order in which
  the object keeps its non-index property names. The property name of a tab id is its
  decimal string, which \<^verbatim>\<open>parseInt\<close> turns back into the id, so keys are the ids.
\<close>

record TabRecency =
  timestamp :: int
  current :: int
  cache :: "(int \<times> int) list"
  lastVisited :: "int option"
  lastVisitedTime :: "int option"
  jumpList :: "TabJumpList option"

definition TabRecency_new :: TabRecency where
  "TabRecency_new =
     \<lparr>timestamp = 1, current = - 1, cache = [], lastVisited = None,
      lastVisitedTime = None, jumpList = None\<rparr>"

text \<open>
  \<^verbatim>\<open>register(tabId)\<close>. The instant read by \<^verbatim>\<open>new Date()\<close> is the parameter
  \<open>currentTime\<close>, in milliseconds. The credit \<^verbatim>\<open>this.cache[this.lastVisited] = ++this.timestamp\<close>
  is guarded by \<^verbatim>\<open>lastVisitedTime\<close> alone. \<^verbatim>\<open>lastVisited\<close> and \<^verbatim>\<open>lastVisitedTime\<close>
  are assigned together and cleared together, so a state with a time and no tab does not
  arise (\<open>pending_ok\<close> below); there the source would write the property \<^verbatim>\<open>"null"\<close>, which
  is no tab id, and the model only advances the clock.
\<close>

definition register :: "int \<Rightarrow> int \<Rightarrow> TabRecency \<Rightarrow> TabRecency" where
  "register currentTime tabId s =
     (let s1 = (case lastVisitedTime s of
                  None \<Rightarrow> s
                | Some t \<Rightarrow>
                    if TIME_DELTA \<le> currentTime - t then
                      (case lastVisited s of
                         Some v \<Rightarrow>
                           s\<lparr>timestamp := timestamp s + 1,
                             cache := AList.update v (timestamp s + 1) (cache s)\<rparr>
                       | None \<Rightarrow> s\<lparr>timestamp := timestamp s + 1\<rparr>)
                    else s);
          s2 = (case jumpList s1 of
                  None \<Rightarrow> s1
                | Some jl \<Rightarrow> if \<not> isCoherent jl tabId then s1\<lparr>jumpList := None\<rparr> else s1)
      in s2\<lparr>current := tabId, lastVisited := Some tabId, lastVisitedTime := Some currentTime\<rparr>)"

text \<open>\<^verbatim>\<open>deregister(tabId)\<close> of the tracker.\<close>

definition deregister :: "int \<Rightarrow> TabRecency \<Rightarrow> TabRecency" where
  "deregister tabId s =
     (let s1 = (if lastVisited s = Some tabId
                then s\<lparr>lastVisited := None, lastVisitedTime := None\<rparr> else s);
          s2 = s1\<lparr>cache := AList.delete tabId (cache s1)\<rparr>
      in case jumpList s2 of
           None \<Rightarrow> s2
         | Some jl \<Rightarrow>
             (case TabJumpList_deregister tabId jl of
                (jumpListInvalidated, jl') \<Rightarrow>
                  if jumpListInvalidated then s2\<lparr>jumpList := None\<rparr>
                  else s2\<lparr>jumpList := Some jl'\<rparr>))"

text \<open>
  \<^verbatim>\<open>Object.keys\<close>: property names that are array indices (integers from \<open>0\<close> to
  \<open>2^32 - 2\<close>) come first in ascending numeric order, the other names follow in insertion
  order.
\<close>

definition is_array_index :: "int \<Rightarrow> bool" where
  "is_array_index k \<longleftrightarrow> 0 \<le> k \<and> k < 2 ^ 32 - 1"

definition Object_keys :: "(int \<times> int) list \<Rightarrow> int list" where
  "Object_keys c =
     sort (filter is_array_index (map fst c)) @ filter (\<lambda>k. \<not> is_array_index k) (map fst c)"

text \<open>
  \<^verbatim>\<open>getTabsByRecency()\<close>: the keys sorted with the comparator
  \<^verbatim>\<open>(a, b) => this.cache[b] - this.cache[a]\<close>, that is by descending timestamp.
  \<^verbatim>\<open>Array.prototype.sort\<close> is stable, as is \<^const>\<open>sort_key\<close>.
\<close>

definition getTabsByRecency :: "TabRecency \<Rightarrow> int list" where
  "getTabsByRecency s =
     sort_key (\<lambda>k. - the (map_of (cache s) k)) (Object_keys (cache s))"

text \<open>
  \<^verbatim>\<open>selectSpecificTab(tabId)\<close> hands the id to the browser: \<^verbatim>\<open>chrome.tabs.get\<close>, whose
  callback focuses the tab's window and makes the tab active. The browser is outside the
  repository; the model records the request that is issued.
\<close>

datatype effect = SelectSpecificTab int

definition selectSpecificTab :: "int \<Rightarrow> effect list" where
  "selectSpecificTab tabId = [SelectSpecificTab tabId]"

text \<open>
  The array from which \<^verbatim>\<open>jumpBackTab\<close> builds a jump list when there is none: the
  reversed ranking, with \<^verbatim>\<open>this.current\<close> pushed under the guard
  \<^verbatim>\<open>tabs.length > 0 && tabs[tabs.length - 1] !== this.current\<close>.
\<close>

definition jumpBack_tabs :: "TabRecency \<Rightarrow> int list" where
  "jumpBack_tabs s =
     (let ts = rev (getTabsByRecency s)
      in if length ts > 0 \<and> last ts \<noteq> current s then ts @ [current s] else ts)"

text \<open>The jump list that \<^verbatim>\<open>jumpBackTab\<close> steps: the live one, or a new one.\<close>

definition jumpBack_list :: "TabRecency \<Rightarrow> TabJumpList" where
  "jumpBack_list s =
     (case jumpList s of None \<Rightarrow> TabJumpList_new (jumpBack_tabs s) | Some jl \<Rightarrow> jl)"

text \<open>
  \<^verbatim>\<open>jumpBackTab()\<close>. The statement \<^verbatim>\<open>backTabId === -1 ? this.current : backTabId;\<close>
  computes a value and drops it, so \<^verbatim>\<open>selectSpecificTab\<close> receives what
  \<^verbatim>\<open>getJumpBackTabId\<close> returned. The result is the new state and the requests issued.
\<close>

definition jumpBackTab :: "TabRecency \<Rightarrow> TabRecency \<times> effect list" where
  "jumpBackTab s =
     (case getJumpBackTabId (jumpBack_list s) of
        (backTabId, jl') \<Rightarrow> (s\<lparr>jumpList := Some jl'\<rparr>, selectSpecificTab backTabId))"

text \<open>
  \<^verbatim>\<open>jumpForwardTab()\<close>: the jump list is stepped only \<^verbatim>\<open>if (this.jumpList)\<close>;
  otherwise \<^verbatim>\<open>forwardTabId\<close> keeps its initial value \<open>-1\<close>.
\<close>

definition jumpForwardTab :: "TabRecency \<Rightarrow> TabRecency \<times> effect list" where
  "jumpForwardTab s =
     (case jumpList s of
        None \<Rightarrow> (s, selectSpecificTab (- 1))
      | Some jl \<Rightarrow>
          (case getJumpForwardTabId jl of
             (forwardTabId, jl') \<Rightarrow>
               (s\<lparr>jumpList := Some jl'\<rparr>, selectSpecificTab forwardTabId)))"

text \<open>
  The calls the browser's tab events make on the tracker: an activation (or a window focus
  change resolved to a tab) at some instant, and a removal.
\<close>

datatype event = Register int int | Deregister int

fun step :: "event \<Rightarrow> TabRecency \<Rightarrow> TabRecency" where
  "step (Register currentTime tabId) s = register currentTime tabId s"
| "step (Deregister tabId) s = deregister tabId s"

fun run :: "event list \<Rightarrow> TabRecency \<Rightarrow> TabRecency" where
  "run [] s = s"
| "run (e # es) s = run es (step e s)"

text \<open>
  Everything that is called on the tracker: the event calls above and the two jump commands
  of the shortcut dispatcher, \<^verbatim>\<open>jumpBackTab()\<close> and \<^verbatim>\<open>jumpForwardTab()\<close>. \<open>execs\<close> gives
  the state after a sequence of them; the requests the jump commands issue are dropped here.
\<close>

datatype command = Call event | JumpBack | JumpForward

fun exec :: "command \<Rightarrow> TabRecency \<Rightarrow> TabRecency" where
  "exec (Call e) s = step e s"
| "exec JumpBack s = fst (jumpBackTab s)"
| "exec JumpForward s = fst (jumpForwardTab s)"

fun execs :: "command list \<Rightarrow> TabRecency \<Rightarrow> TabRecency" where
  "execs [] s = s"
| "execs (c # cs) s = execs cs (exec c s)"

subsection \<open>Invariants\<close>

text \<open>Coherence: a live jump list points at the tracker's current tab.\<close>

definition coherent :: "TabRecency \<Rightarrow> bool" where
  "coherent s \<longleftrightarrow>
     (case jumpList s of None \<Rightarrow> True | Some jl \<Rightarrow> activeTab jl = Some (current s))"

text \<open>The pending tab and its instant are both set or both \<^verbatim>\<open>null\<close>.\<close>

definition pending_ok :: "TabRecency \<Rightarrow> bool" where
  "pending_ok s \<longleftrightarrow> (lastVisited s = None) = (lastVisitedTime s = None)"

text \<open>No timestamp in the cache is ahead of the clock.\<close>

definition clock_ok :: "TabRecency \<Rightarrow> bool" where
  "clock_ok s \<longleftrightarrow> list_all (\<lambda>kv. snd kv \<le> timestamp s) (cache s)"

text \<open>The invariants of the tracker that every operation keeps.\<close>

definition tracker_ok :: "TabRecency \<Rightarrow> bool" where
  "tracker_ok s \<longleftrightarrow>
     pending_ok s \<and> clock_ok s \<and> distinct (map fst (cache s))
     \<and> (case jumpList s of None \<Rightarrow> True | Some jl \<Rightarrow> jl_ok jl)"

text \<open>
  \<open>precedes x y xs\<close>: \<open>x\<close> stands at an earlier position of \<open>xs\<close> than \<open>y\<close>.
\<close>

definition precedes :: "int \<Rightarrow> int \<Rightarrow> int list \<Rightarrow> bool" where
  "precedes x y xs \<longleftrightarrow> (\<exists>j < length xs. \<exists>i < j. xs ! i = x \<and> xs ! j = y)"

text \<open>
  \<open>found jl r\<close>: \<open>r\<close> is an index of \<open>tabs\<close> whose tab is not a tombstone.
\<close>

definition found :: "TabJumpList \<Rightarrow> int \<Rightarrow> bool" where
  "found jl r \<longleftrightarrow> 0 \<le> r \<and> r < int (length (tabs jl)) \<and> tabs jl ! nat r \<notin> deletedTabs jl"

text \<open>Two jump lists used as concrete inputs.\<close>

definition jl_example :: TabJumpList where
  "jl_example = \<lparr>tabs = [3, 5, 8], activeIdx = 2, deletedTabs = {}\<rparr>"

definition jl_boundary :: TabJumpList where
  "jl_boundary = \<lparr>tabs = [3, 5, 8], activeIdx = 1, deletedTabs = {3, 8}\<rparr>"


definition s_two :: TabRecency where
  "s_two = run [Register 0 7, Register 300 3, Register 700 7] TabRecency_new"

definition s_live :: TabRecency where
  "s_live = register 1000 3 (fst (jumpBackTab s_two))"

definition s_edge :: TabRecency where
  "s_edge = register 1500 7 (fst (jumpBackTab s_live))"

definition s_top :: TabRecency where
  "s_top = register 1500 7 (fst (jumpForwardTab s_live))"

definition s_three :: TabRecency where
  "s_three = run [Register 0 7, Register 300 3, Register 700 5, Register 1000 7] TabRecency_new"

subsection \<open>Results about TabJumpList\<close>

text \<open>
  C10. Deregistering the tab at the active index returns \<^verbatim>\<open>true\<close> (invalidated) and leaves
  every field of the jump list as it was: \<open>tabs\<close>, \<open>activeIdx\<close> and \<open>deletedTabs\<close> are
  unchanged, so the removed tab is not added to the tombstones.
\<close>

theorem TabJumpList_deregister_active_unchanged:
  assumes "activeTab jl = Some tabId"
  shows "TabJumpList_deregister tabId jl = (True, jl)
         \<and> tabs (snd (TabJumpList_deregister tabId jl)) = tabs jl
         \<and> activeIdx (snd (TabJumpList_deregister tabId jl)) = activeIdx jl
         \<and> deletedTabs (snd (TabJumpList_deregister tabId jl)) = deletedTabs jl"
  using assms by (simp add: TabJumpList_deregister_def)

theorem TabJumpList_deregister_active_unchanged_witness:
  "activeTab (TabJumpList_new [3, 5, 8]) = Some 8
   \<and> TabJumpList_deregister 8 (TabJumpList_new [3, 5, 8]) = (True, TabJumpList_new [3, 5, 8])
   \<and> 8 \<notin> deletedTabs (snd (TabJumpList_deregister 8 (TabJumpList_new [3, 5, 8])))"
proof -
  have h: "activeTab (TabJumpList_new [3, 5, 8]) = Some 8"
    by (simp add: activeTab_def array_get_def TabJumpList_new_def)
  have "deletedTabs (TabJumpList_new [3, 5, 8]) = {}"
    by (simp add: TabJumpList_new_def)
  with h TabJumpList_deregister_active_unchanged [OF h] show ?thesis
    by simp
qed

lemma back_loop_need1:
  "back_loop jl i c 1 =
     (if 0 \<le> i then (if tabs jl ! nat i \<in> deletedTabs jl then back_loop jl (i - 1) c 1 else i)
      else c)"
  by (simp add: back_loop.simps [of jl i c 1])

lemma forward_loop_need1:
  "forward_loop jl i c 1 =
     (if i < int (length (tabs jl))
      then (if tabs jl ! nat i \<in> deletedTabs jl then forward_loop jl (i + 1) c 1 else i)
      else c)"
  by (simp add: forward_loop.simps [of jl i c 1])

lemma back_loop_result:
  "i < int (length (tabs jl)) \<Longrightarrow> back_loop jl i c need = c \<or>
   (back_loop jl i c need \<le> i \<and> found jl (back_loop jl i c need))"
proof (induction jl i c need rule: back_loop.induct)
  case (1 jl i c need)
  note eq = back_loop.simps [of jl i c need]
  show ?case
  proof (cases "0 \<le> i")
    case False
    with eq show ?thesis by simp
  next
    case i0: True
    show ?thesis
    proof (cases "tabs jl ! nat i \<in> deletedTabs jl")
      case True
      with i0 eq have e: "back_loop jl i c need = back_loop jl (i - 1) c need" by simp
      from "1.IH"(1) [OF i0 True] "1.prems" show ?thesis unfolding e by fastforce
    next
      case nd: False
      show ?thesis
      proof (cases "need - 1 \<le> 0")
        case True
        with i0 nd eq have "back_loop jl i c need = i" by simp
        with i0 nd "1.prems" show ?thesis by (simp add: found_def)
      next
        case False
        with i0 nd eq have e: "back_loop jl i c need = back_loop jl (i - 1) i (need - 1)" by simp
        from "1.IH"(2) [OF i0 nd False] "1.prems" i0 nd show ?thesis unfolding e
          by (fastforce simp: found_def)
      qed
    qed
  qed
qed

lemma forward_loop_result:
  "0 \<le> i \<Longrightarrow> forward_loop jl i c need = c \<or>
   (i \<le> forward_loop jl i c need \<and> found jl (forward_loop jl i c need))"
proof (induction jl i c need rule: forward_loop.induct)
  case (1 jl i c need)
  note eq = forward_loop.simps [of jl i c need]
  show ?case
  proof (cases "i < int (length (tabs jl))")
    case False
    with eq show ?thesis by simp
  next
    case i0: True
    show ?thesis
    proof (cases "tabs jl ! nat i \<in> deletedTabs jl")
      case True
      with i0 eq have e: "forward_loop jl i c need = forward_loop jl (i + 1) c need" by simp
      from "1.IH"(1) [OF i0 True] "1.prems" show ?thesis unfolding e by fastforce
    next
      case nd: False
      show ?thesis
      proof (cases "need - 1 \<le> 0")
        case True
        with i0 nd eq have "forward_loop jl i c need = i" by simp
        with i0 nd "1.prems" show ?thesis by (simp add: found_def)
      next
        case False
        with i0 nd eq have e: "forward_loop jl i c need = forward_loop jl (i + 1) i (need - 1)"
          by simp
        from "1.IH"(2) [OF i0 nd False] "1.prems" i0 nd show ?thesis unfolding e
          by (fastforce simp: found_def)
      qed
    qed
  qed
qed

lemma back_loop_all_deleted:
  "(\<And>j. 0 \<le> j \<Longrightarrow> j \<le> i \<Longrightarrow> tabs jl ! nat j \<in> deletedTabs jl) \<Longrightarrow>
   back_loop jl i c need = c"
proof (induction jl i c need rule: back_loop.induct)
  case (1 jl i c need)
  note eq = back_loop.simps [of jl i c need]
  show ?case
  proof (cases "0 \<le> i")
    case False
    with eq show ?thesis by simp
  next
    case i0: True
    with "1.prems" have d: "tabs jl ! nat i \<in> deletedTabs jl" by simp
    with i0 eq have e: "back_loop jl i c need = back_loop jl (i - 1) c need" by simp
    have "back_loop jl (i - 1) c need = c"
      by (rule "1.IH"(1) [OF i0 d]) (simp add: "1.prems")
    with e show ?thesis by simp
  qed
qed

lemma forward_loop_all_deleted:
  "(\<And>j. i \<le> j \<Longrightarrow> j < int (length (tabs jl)) \<Longrightarrow> tabs jl ! nat j \<in> deletedTabs jl) \<Longrightarrow>
   forward_loop jl i c need = c"
proof (induction jl i c need rule: forward_loop.induct)
  case (1 jl i c need)
  note eq = forward_loop.simps [of jl i c need]
  show ?case
  proof (cases "i < int (length (tabs jl))")
    case False
    with eq show ?thesis by simp
  next
    case i0: True
    with "1.prems" have d: "tabs jl ! nat i \<in> deletedTabs jl" by simp
    with i0 eq have e: "forward_loop jl i c need = forward_loop jl (i + 1) c need" by simp
    have "forward_loop jl (i + 1) c need = c"
      by (rule "1.IH"(1) [OF i0 d]) (simp add: "1.prems")
    with e show ?thesis by simp
  qed
qed

text \<open>What one traversal call returns and how it leaves the list.\<close>

lemma getJumpBackTabId_cases:
  assumes "jl_ok jl"
  shows "getJumpBackTabId jl = (- 1, jl) \<or>
         (\<exists>k. found jl k \<and> k < activeIdx jl \<and>
              getJumpBackTabId jl = (tabs jl ! nat k, jl\<lparr>activeIdx := k\<rparr>))"
proof -
  let ?k = "back_loop jl (activeIdx jl - 1) (- 1) 1"
  from assms have "activeIdx jl - 1 < int (length (tabs jl))" by (simp add: jl_ok_def)
  from back_loop_result [OF this, of "- 1" 1]
  have "?k = - 1 \<or> (?k \<le> activeIdx jl - 1 \<and> found jl ?k)" .
  then show ?thesis
  proof
    assume "?k = - 1"
    then show ?thesis by (simp add: getJumpBackTabId_def)
  next
    assume k: "?k \<le> activeIdx jl - 1 \<and> found jl ?k"
    then have "?k \<noteq> - 1" by (auto simp: found_def)
    with k show ?thesis by (auto simp: getJumpBackTabId_def Let_def)
  qed
qed

lemma getJumpForwardTabId_cases:
  assumes "jl_ok jl"
  shows "getJumpForwardTabId jl = (- 1, jl) \<or>
         (\<exists>k. found jl k \<and> activeIdx jl < k \<and>
              getJumpForwardTabId jl = (tabs jl ! nat k, jl\<lparr>activeIdx := k\<rparr>))"
proof -
  let ?k = "forward_loop jl (activeIdx jl + 1) (- 1) 1"
  from assms have "0 \<le> activeIdx jl + 1" by (simp add: jl_ok_def)
  from forward_loop_result [OF this, of jl "- 1" 1]
  have "?k = - 1 \<or> (activeIdx jl + 1 \<le> ?k \<and> found jl ?k)" .
  then show ?thesis
  proof
    assume "?k = - 1"
    then show ?thesis by (simp add: getJumpForwardTabId_def)
  next
    assume k: "activeIdx jl + 1 \<le> ?k \<and> found jl ?k"
    then have "?k \<noteq> - 1" by (auto simp: found_def)
    with k show ?thesis by (auto simp: getJumpForwardTabId_def Let_def)
  qed
qed

lemma jump_call_cases:
  assumes "jl_ok jl"
  shows "jump_call j jl = (- 1, jl) \<or>
         (\<exists>k. found jl k \<and> jump_call j jl = (tabs jl ! nat k, jl\<lparr>activeIdx := k\<rparr>))"
proof (cases j)
  case Back
  with getJumpBackTabId_cases [OF assms] show ?thesis by auto
next
  case Forward
  with getJumpForwardTabId_cases [OF assms] show ?thesis by auto
qed

lemma jl_ok_new: "jl_ok (TabJumpList_new ts)"
  by (simp add: jl_ok_def TabJumpList_new_def)

lemma jl_ok_jump_call:
  assumes "jl_ok jl"
  shows "jl_ok (snd (jump_call j jl))"
  using jump_call_cases [OF assms, of j] assms by (auto simp: jl_ok_def found_def)

lemma jl_ok_deregister:
  "jl_ok jl \<Longrightarrow> jl_ok (snd (TabJumpList_deregister tabId jl))"
  by (simp add: TabJumpList_deregister_def jl_ok_def)

lemma jump_call_frame:
  assumes "jl_ok jl"
  shows "tabs (snd (jump_call j jl)) = tabs jl \<and>
         deletedTabs (snd (jump_call j jl)) = deletedTabs jl"
  using jump_call_cases [OF assms, of j] by auto

lemma jump_call_not_deleted:
  assumes "jl_ok jl"
  shows "fst (jump_call j jl) = - 1 \<or> fst (jump_call j jl) \<notin> deletedTabs jl"
  using jump_call_cases [OF assms, of j] by (auto simp: found_def)

lemma jump_calls_not_deleted:
  "jl_ok jl \<Longrightarrow> r \<in> set (fst (jump_calls js jl)) \<Longrightarrow> r = - 1 \<or> r \<notin> deletedTabs jl"
proof (induction js arbitrary: jl)
  case Nil
  then show ?case by simp
next
  case (Cons j js)
  obtain r1 jl1 where c1: "jump_call j jl = (r1, jl1)" by (cases "jump_call j jl")
  obtain rs jl2 where c2: "jump_calls js jl1 = (rs, jl2)" by (cases "jump_calls js jl1")
  from jl_ok_jump_call [OF Cons.prems(1), of j] c1 have ok1: "jl_ok jl1" by simp
  from jump_call_frame [OF Cons.prems(1), of j] c1
  have del: "deletedTabs jl1 = deletedTabs jl" by simp
  from Cons.prems(2) c1 c2 have "r = r1 \<or> r \<in> set rs" by simp
  then show ?case
  proof
    assume "r = r1"
    with jump_call_not_deleted [OF Cons.prems(1), of j] c1 show ?thesis by simp
  next
    assume "r \<in> set rs"
    with c2 have "r \<in> set (fst (jump_calls js jl1))" by simp
    from Cons.IH [OF ok1 this] del show ?thesis by simp
  qed
qed

text \<open>
  C7. Tombstone skip. Deregistering a tab other than the one at the active index returns
  \<^verbatim>\<open>false\<close> and adds the tab to \<open>deletedTabs\<close>; no later sequence of
  \<^verbatim>\<open>getJumpBackTabId\<close> and \<^verbatim>\<open>getJumpForwardTabId\<close> calls returns that tab's id.
  The value \<open>-1\<close>, which both calls return for "no target", is not a tab id.
\<close>

theorem tombstone_skip:
  assumes "jl_ok jl" and "activeTab jl \<noteq> Some tabId" and "tabId \<noteq> - 1"
  shows "TabJumpList_deregister tabId jl =
           (False, jl\<lparr>deletedTabs := insert tabId (deletedTabs jl)\<rparr>)
         \<and> tabId \<notin> set (fst (jump_calls js (snd (TabJumpList_deregister tabId jl))))"
proof -
  let ?jl' = "jl\<lparr>deletedTabs := insert tabId (deletedTabs jl)\<rparr>"
  from assms(2) have d: "TabJumpList_deregister tabId jl = (False, ?jl')"
    by (simp add: TabJumpList_deregister_def)
  from assms(1) have ok: "jl_ok ?jl'" by (simp add: jl_ok_def)
  have "tabId \<notin> set (fst (jump_calls js ?jl'))"
  proof
    assume "tabId \<in> set (fst (jump_calls js ?jl'))"
    from jump_calls_not_deleted [OF ok this] assms(3) show False by simp
  qed
  with d show ?thesis by simp
qed

theorem tombstone_skip_witness:
  "jl_ok jl_example \<and> activeTab jl_example \<noteq> Some 5
   \<and> TabJumpList_deregister 5 jl_example =
       (False, jl_example\<lparr>deletedTabs := insert 5 (deletedTabs jl_example)\<rparr>)
   \<and> 5 \<notin> set (fst (jump_calls [Back, Back, Forward]
                       (snd (TabJumpList_deregister 5 jl_example))))"
proof -
  have h1: "jl_ok jl_example" by (simp add: jl_ok_def jl_example_def)
  have h2: "activeTab jl_example \<noteq> Some 5"
    by (simp add: activeTab_def array_get_def jl_example_def)
  have h3: "(5::int) \<noteq> - 1" by simp
  from h1 h2 tombstone_skip [OF h1 h2 h3, of "[Back, Back, Forward]"] show ?thesis
    by blast
qed

lemma jump_calls_replicate_none:
  "jump_call j jl = (- 1, jl) \<Longrightarrow> jump_calls (replicate n j) jl = (replicate n (- 1), jl)"
  by (induction n) simp_all

text \<open>
  C8. Boundary idempotence. When every tab below the active index is a tombstone,
  \<^verbatim>\<open>getJumpBackTabId\<close> returns \<open>-1\<close> and leaves the whole jump list unchanged, so any
  number of repeated calls return \<open>-1\<close> and change nothing; likewise
  \<^verbatim>\<open>getJumpForwardTabId\<close> when every tab above the active index is a tombstone.
\<close>

theorem boundary_idempotent:
  assumes "jl_ok jl"
  shows "((\<forall>i. 0 \<le> i \<and> i < activeIdx jl \<longrightarrow> tabs jl ! nat i \<in> deletedTabs jl) \<longrightarrow>
            getJumpBackTabId jl = (- 1, jl)
            \<and> jump_calls (replicate n Back) jl = (replicate n (- 1), jl))
       \<and> ((\<forall>i. activeIdx jl < i \<and> i < int (length (tabs jl)) \<longrightarrow> tabs jl ! nat i \<in> deletedTabs jl) \<longrightarrow>
            getJumpForwardTabId jl = (- 1, jl)
            \<and> jump_calls (replicate n Forward) jl = (replicate n (- 1), jl))"
proof (intro conjI impI)
  assume a: "\<forall>i. 0 \<le> i \<and> i < activeIdx jl \<longrightarrow> tabs jl ! nat i \<in> deletedTabs jl"
  have "back_loop jl (activeIdx jl - 1) (- 1) 1 = - 1"
    by (rule back_loop_all_deleted) (simp add: a)
  then show b: "getJumpBackTabId jl = (- 1, jl)" by (simp add: getJumpBackTabId_def)
  then show "jump_calls (replicate n Back) jl = (replicate n (- 1), jl)"
    by (intro jump_calls_replicate_none) simp
next
  assume a: "\<forall>i. activeIdx jl < i \<and> i < int (length (tabs jl)) \<longrightarrow> tabs jl ! nat i \<in> deletedTabs jl"
  have "forward_loop jl (activeIdx jl + 1) (- 1) 1 = - 1"
    by (rule forward_loop_all_deleted) (simp add: a)
  then show b: "getJumpForwardTabId jl = (- 1, jl)" by (simp add: getJumpForwardTabId_def)
  then show "jump_calls (replicate n Forward) jl = (replicate n (- 1), jl)"
    by (intro jump_calls_replicate_none) simp
qed

theorem boundary_idempotent_witness:
  "jl_ok jl_boundary
   \<and> getJumpBackTabId jl_boundary = (- 1, jl_boundary)
   \<and> jump_calls (replicate 3 Back) jl_boundary = (replicate 3 (- 1), jl_boundary)
   \<and> getJumpForwardTabId jl_boundary = (- 1, jl_boundary)
   \<and> jump_calls (replicate 3 Forward) jl_boundary = (replicate 3 (- 1), jl_boundary)"
proof -
  have ok: "jl_ok jl_boundary" by (simp add: jl_ok_def jl_boundary_def)
  have below: "\<forall>i. 0 \<le> i \<and> i < activeIdx jl_boundary \<longrightarrow>
      tabs jl_boundary ! nat i \<in> deletedTabs jl_boundary"
  proof (intro allI impI)
    fix i :: int
    assume "0 \<le> i \<and> i < activeIdx jl_boundary"
    then have "i = 0" by (simp add: jl_boundary_def)
    then show "tabs jl_boundary ! nat i \<in> deletedTabs jl_boundary"
      by (simp add: jl_boundary_def)
  qed
  have above: "\<forall>i. activeIdx jl_boundary < i \<and> i < int (length (tabs jl_boundary)) \<longrightarrow>
      tabs jl_boundary ! nat i \<in> deletedTabs jl_boundary"
  proof (intro allI impI)
    fix i :: int
    assume "activeIdx jl_boundary < i \<and> i < int (length (tabs jl_boundary))"
    then have "i = 2" by (simp add: jl_boundary_def)
    then show "tabs jl_boundary ! nat i \<in> deletedTabs jl_boundary"
      by (simp add: jl_boundary_def)
  qed
  from ok below above boundary_idempotent [OF ok, of 3] show ?thesis
    by blast
qed

subsection \<open>Results about TabRecency\<close>

lemma s_two_eq:
  "s_two = \<lparr>timestamp = 3, current = 7, cache = [(7, 2), (3, 3)], lastVisited = Some 7,
            lastVisitedTime = Some 700, jumpList = None\<rparr>"
  by code_simp

lemma getTabsByRecency_s_two: "getTabsByRecency s_two = [3, 7]"
  by code_simp

lemma jumpBackTab_s_two:
  "jumpBackTab s_two =
     (s_two\<lparr>jumpList := Some \<lparr>tabs = [7, 3, 7], activeIdx = 1, deletedTabs = {}\<rparr>\<rparr>,
      [SelectSpecificTab 3])"
  by code_simp

lemma s_live_eq:
  "s_live = \<lparr>timestamp = 4, current = 3, cache = [(7, 4), (3, 3)], lastVisited = Some 3,
            lastVisitedTime = Some 1000,
            jumpList = Some \<lparr>tabs = [7, 3, 7], activeIdx = 1, deletedTabs = {}\<rparr>\<rparr>"
  by code_simp

lemma coherent_register: "coherent (register currentTime tabId s)"
  by (auto simp: coherent_def register_def isCoherent_def Let_def split: option.splits)

lemma coherent_deregister: "coherent s \<Longrightarrow> coherent (deregister tabId s)"
  by (auto simp: coherent_def deregister_def TabJumpList_deregister_def activeTab_def Let_def
      split: option.splits if_splits)

lemma coherent_step: "coherent s \<Longrightarrow> coherent (step e s)"
  by (cases e) (simp_all add: coherent_register coherent_deregister)

lemma coherent_run: "coherent s \<Longrightarrow> coherent (run evs s)"
  by (induction evs arbitrary: s) (simp_all add: coherent_step)

lemma coherent_new: "coherent TabRecency_new"
  by (simp add: coherent_def TabRecency_new_def)

lemma register_incoherent_drops:
  "jumpList s = Some jl \<Longrightarrow> activeTab jl \<noteq> Some tabId \<Longrightarrow>
   jumpList (register currentTime tabId s) = None"
  by (auto simp: register_def isCoherent_def Let_def split: option.splits)

lemma deregister_active_drops:
  "jumpList s = Some jl \<Longrightarrow> activeTab jl = Some tabId \<Longrightarrow>
   jumpList (deregister tabId s) = None"
  by (auto simp: deregister_def TabJumpList_deregister_def Let_def split: option.splits)

lemma coherent_run_after_register:
  "Register currentTime tabId \<in> set evs \<Longrightarrow> coherent (run evs s)"
proof (induction evs arbitrary: s)
  case Nil
  then show ?case by simp
next
  case (Cons e evs)
  show ?case
  proof (cases "e = Register currentTime tabId")
    case True
    then have "coherent (step e s)" by (simp add: coherent_register)
    then show ?thesis by (simp add: coherent_run)
  next
    case False
    with Cons.prems have "Register currentTime tabId \<in> set evs" by simp
    then show ?thesis by (simp add: Cons.IH)
  qed
qed

text \<open>
  C1, as stated, fails once a jump list exists. Tabs 7 and 3 are credited and tab 7 is active
  again; \<^verbatim>\<open>jumpBackTab\<close> builds the list \<open>[7, 3, 7]\<close> and moves its active index to tab 3;
  before the activation event of tab 3 arrives, tab 9 is closed. After that
  \<^verbatim>\<open>deregister\<close> call the jump list is still there, the tab at its active index is 3 and
  the current tab is 7.
\<close>

theorem jump_then_deregister_incoherent:
  "jumpList (execs [Call (Register 0 7), Call (Register 300 3), Call (Register 700 7),
                    JumpBack, Call (Deregister 9)] TabRecency_new)
     = Some \<lparr>tabs = [7, 3, 7], activeIdx = 1, deletedTabs = {9}\<rparr>
   \<and> activeTab \<lparr>tabs = [7, 3, 7], activeIdx = 1, deletedTabs = {9}\<rparr> = Some 3
   \<and> current (execs [Call (Register 0 7), Call (Register 300 3), Call (Register 700 7),
                      JumpBack, Call (Deregister 9)] TabRecency_new) = 7
   \<and> \<not> coherent (execs [Call (Register 0 7), Call (Register 300 3), Call (Register 700 7),
                         JumpBack, Call (Deregister 9)] TabRecency_new)"
  by code_simp

text \<open>
  C1, amended. Coherence holds from a \<^verbatim>\<open>register\<close> call on, until the next jump command:
  in every execution from the initial state, jump commands included, after a
  \<^verbatim>\<open>register\<close> call and any further \<^verbatim>\<open>register\<close> and \<^verbatim>\<open>deregister\<close> calls, a live jump
  list points at the current tab. More generally a sequence of \<^verbatim>\<open>register\<close> and
  \<^verbatim>\<open>deregister\<close> calls keeps coherence from any coherent state, and establishes it from
  any state when it contains a \<^verbatim>\<open>register\<close> call. Registering a tab other than the one
  at the active index discards the jump list, and so does deregistering the tab at the
  active index. Nothing is said about the states between a jump command and the next
  \<^verbatim>\<open>register\<close> call.
\<close>

theorem coherence_invariant:
  "coherent (run evs (register currentTime tabId (execs cs TabRecency_new)))
   \<and> (coherent s \<longrightarrow> coherent (run evs s))
   \<and> (Register currentTime tabId \<in> set evs \<longrightarrow> coherent (run evs s))
   \<and> (jumpList s = Some jl \<and> activeTab jl \<noteq> Some tabId \<longrightarrow>
        jumpList (register currentTime tabId s) = None)
   \<and> (jumpList s = Some jl \<and> activeTab jl = Some tabId \<longrightarrow>
        jumpList (deregister tabId s) = None)"
proof (intro conjI impI)
  show "coherent (run evs (register currentTime tabId (execs cs TabRecency_new)))"
    by (rule coherent_run) (rule coherent_register)
next
  assume "coherent s"
  then show "coherent (run evs s)" by (rule coherent_run)
next
  assume "Register currentTime tabId \<in> set evs"
  then show "coherent (run evs s)" by (rule coherent_run_after_register)
next
  assume "jumpList s = Some jl \<and> activeTab jl \<noteq> Some tabId"
  then show "jumpList (register currentTime tabId s) = None"
    by (simp add: register_incoherent_drops)
next
  assume "jumpList s = Some jl \<and> activeTab jl = Some tabId"
  then show "jumpList (deregister tabId s) = None"
    by (simp add: deregister_active_drops)
qed

theorem coherence_invariant_witness:
  "coherent (run [Deregister 9]
      (register 1000 3 (execs [Call (Register 0 7), Call (Register 300 3),
                               Call (Register 700 7), JumpBack] TabRecency_new)))
   \<and> jumpList (run [Deregister 9]
      (register 1000 3 (execs [Call (Register 0 7), Call (Register 300 3),
                               Call (Register 700 7), JumpBack] TabRecency_new)))
       = Some \<lparr>tabs = [7, 3, 7], activeIdx = 1, deletedTabs = {9}\<rparr>
   \<and> coherent s_live
   \<and> jumpList s_live = Some \<lparr>tabs = [7, 3, 7], activeIdx = 1, deletedTabs = {}\<rparr>
   \<and> coherent (run [Deregister 7, Register 1100 3] s_live)
   \<and> jumpList (run [Deregister 7, Register 1100 3] s_live) \<noteq> None
   \<and> \<not> coherent (fst (jumpBackTab s_two))
   \<and> coherent (run [Deregister 9, Register 1000 3] (fst (jumpBackTab s_two)))
   \<and> jumpList (register 1200 7 s_live) = None
   \<and> jumpList (deregister 3 s_live) = None"
proof -
  let ?jl = "\<lparr>tabs = [7, 3, 7], activeIdx = 1, deletedTabs = {}\<rparr>"
  let ?evs = "[Deregister 7, Register 1100 3]"
  let ?evs' = "[Deregister 9, Register 1000 3]"
  let ?cs = "[Call (Register 0 7), Call (Register 300 3), Call (Register 700 7), JumpBack]"
  have j: "jumpList s_live = Some ?jl" by (simp add: s_live_eq)
  have a: "activeTab ?jl = Some 3" by (simp add: activeTab_def array_get_def)
  have c: "coherent s_live" by (simp add: coherent_def s_live_eq a)
  have n: "jumpList s_live = Some ?jl \<and> activeTab ?jl \<noteq> Some 7" using j a by simp
  have d: "jumpList s_live = Some ?jl \<and> activeTab ?jl = Some 3" using j a by simp
  have r: "Register 1000 3 \<in> set ?evs'" by simp
  have live: "jumpList (run ?evs s_live) \<noteq> None" by code_simp
  have live': "jumpList (run [Deregister 9] (register 1000 3 (execs ?cs TabRecency_new)))
       = Some \<lparr>tabs = [7, 3, 7], activeIdx = 1, deletedTabs = {9}\<rparr>" by code_simp
  have inc: "\<not> coherent (fst (jumpBackTab s_two))" by code_simp
  note t0 = coherence_invariant [where evs = "[Deregister 9]" and currentTime = 1000
      and tabId = 3 and cs = ?cs and s = s_live and jl = ?jl]
  note t1 = coherence_invariant [where evs = ?evs and currentTime = 1200 and tabId = 7
      and cs = "[]" and s = s_live and jl = ?jl]
  note t2 = coherence_invariant [where evs = ?evs' and currentTime = 1000 and tabId = 3
      and cs = "[]" and s = "fst (jumpBackTab s_two)" and jl = ?jl]
  note t3 = coherence_invariant [where evs = "[]" and currentTime = 0 and tabId = 3
      and cs = "[]" and s = s_live and jl = ?jl]
  have 0: "coherent (run [Deregister 9] (register 1000 3 (execs ?cs TabRecency_new)))"
    by (rule t0 [THEN conjunct1])
  have 1: "coherent (run ?evs s_live)"
    by (rule t1 [THEN conjunct2, THEN conjunct1, THEN mp, OF c])
  have 2: "coherent (run ?evs' (fst (jumpBackTab s_two)))"
    by (rule t2 [THEN conjunct2, THEN conjunct2, THEN conjunct1, THEN mp, OF r])
  have 3: "jumpList (register 1200 7 s_live) = None"
    by (rule t1 [THEN conjunct2, THEN conjunct2, THEN conjunct2, THEN conjunct1, THEN mp, OF n])
  have 4: "jumpList (deregister 3 s_live) = None"
    by (rule t3 [THEN conjunct2, THEN conjunct2, THEN conjunct2, THEN conjunct2, THEN mp, OF d])
  from 0 live' c j 1 live inc 2 3 4 show ?thesis by (intro conjI)
qed

lemma register_credit:
  assumes "lastVisited s = Some p" and "lastVisitedTime s = Some t"
    and "TIME_DELTA \<le> currentTime - t"
  shows "cache (register currentTime tabId s) = AList.update p (timestamp s + 1) (cache s)"
    and "timestamp (register currentTime tabId s) = timestamp s + 1"
  using assms by (simp_all add: register_def Let_def split: option.splits)

lemma register_no_credit:
  assumes "lastVisitedTime s = None \<or> (\<exists>t. lastVisitedTime s = Some t \<and> \<not> TIME_DELTA \<le> currentTime - t)"
  shows "cache (register currentTime tabId s) = cache s"
    and "timestamp (register currentTime tabId s) = timestamp s"
  using assms by (auto simp add: register_def Let_def split: option.splits)

lemma clock_ok_bound:
  assumes "clock_ok s" and "map_of (cache s) k = Some v"
  shows "v < timestamp s + 1"
proof -
  from assms(2) have "(k, v) \<in> set (cache s)" by (rule map_of_SomeD)
  with assms(1) have "v \<le> timestamp s" by (auto simp: clock_ok_def list_all_iff)
  then show ?thesis by simp
qed

text \<open>
  C2. Debounce. When \<^verbatim>\<open>register\<close> is called while tab \<open>p\<close> is pending since instant
  \<open>t\<close>: if at least 250 ms have passed, the clock is incremented and \<open>p\<close> gets the new clock
  value (which is above every timestamp already in the cache when none of them is ahead of
  the clock), and no other entry changes; if less than 250 ms have passed, clock and cache
  stay as they are, so a tab that had no entry still has none. Hence \<open>p\<close> is credited with
  the incremented clock exactly when at least 250 ms have passed.
\<close>

theorem register_debounce:
  assumes "lastVisited s = Some p" and "lastVisitedTime s = Some t"
  shows "(250 \<le> currentTime - t \<longrightarrow>
            timestamp (register currentTime tabId s) = timestamp s + 1
            \<and> map_of (cache (register currentTime tabId s)) p = Some (timestamp s + 1)
            \<and> (\<forall>k. k \<noteq> p \<longrightarrow>
                 map_of (cache (register currentTime tabId s)) k = map_of (cache s) k)
            \<and> (clock_ok s \<longrightarrow> (\<forall>k v. map_of (cache s) k = Some v \<longrightarrow> v < timestamp s + 1)))
       \<and> (currentTime - t < 250 \<longrightarrow>
            timestamp (register currentTime tabId s) = timestamp s
            \<and> cache (register currentTime tabId s) = cache s
            \<and> (map_of (cache s) p = None \<longrightarrow>
                 map_of (cache (register currentTime tabId s)) p = None))
       \<and> ((timestamp (register currentTime tabId s) = timestamp s + 1
            \<and> map_of (cache (register currentTime tabId s)) p = Some (timestamp s + 1))
           = (250 \<le> currentTime - t))"
proof (cases "250 \<le> currentTime - t")
  case True
  then have d: "TIME_DELTA \<le> currentTime - t" by (simp add: TIME_DELTA_def)
  note r = register_credit [OF assms d, of tabId]
  have 1: "timestamp (register currentTime tabId s) = timestamp s + 1" by (rule r(2))
  have 2: "map_of (cache (register currentTime tabId s)) p = Some (timestamp s + 1)"
    by (simp add: r(1) update_conv')
  have 3: "\<forall>k. k \<noteq> p \<longrightarrow> map_of (cache (register currentTime tabId s)) k = map_of (cache s) k"
    by (simp add: r(1) update_conv')
  have 4: "clock_ok s \<longrightarrow> (\<forall>k v. map_of (cache s) k = Some v \<longrightarrow> v < timestamp s + 1)"
    using clock_ok_bound by blast
  from True 1 2 3 4 show ?thesis by simp
next
  case False
  then have "\<not> TIME_DELTA \<le> currentTime - t" by (simp add: TIME_DELTA_def)
  with assms(2)
  have "lastVisitedTime s = None \<or> (\<exists>t. lastVisitedTime s = Some t \<and> \<not> TIME_DELTA \<le> currentTime - t)"
    by simp
  note r = register_no_credit [OF this, of tabId]
  from False r show ?thesis by simp
qed

theorem register_debounce_witness:
  "timestamp (register 1000 3 s_two) = timestamp s_two + 1
   \<and> map_of (cache (register 1000 3 s_two)) 7 = Some (timestamp s_two + 1)
   \<and> timestamp (register 800 3 s_two) = timestamp s_two
   \<and> cache (register 800 3 s_two) = cache s_two
   \<and> map_of (cache (register 100 6 (register 0 5 TabRecency_new))) 5 = None"
proof -
  have p: "lastVisited s_two = Some 7" and t: "lastVisitedTime s_two = Some 700"
    by (simp_all add: s_two_eq)
  let ?s1 = "register 0 5 TabRecency_new"
  have p1: "lastVisited ?s1 = Some 5" and t1: "lastVisitedTime ?s1 = Some 0"
    by (simp_all add: register_def TabRecency_new_def)
  have e1: "map_of (cache ?s1) 5 = None"
    by (simp add: register_def TabRecency_new_def)
  note a = register_debounce [OF p t, of 1000 3]
  note b = register_debounce [OF p t, of 800 3]
  note c = register_debounce [OF p1 t1, of 100 6]
  from a have 1: "timestamp (register 1000 3 s_two) = timestamp s_two + 1"
    and 2: "map_of (cache (register 1000 3 s_two)) 7 = Some (timestamp s_two + 1)" by simp_all
  from b have 3: "timestamp (register 800 3 s_two) = timestamp s_two"
    and 4: "cache (register 800 3 s_two) = cache s_two" by simp_all
  from c e1 have 5: "map_of (cache (register 100 6 ?s1)) 5 = None" by simp
  from 1 2 3 4 5 show ?thesis by (intro conjI)
qed

lemma set_Object_keys: "set (Object_keys c) = fst ` set c"
  by (auto simp: Object_keys_def)

lemma distinct_Object_keys: "distinct (map fst c) \<Longrightarrow> distinct (Object_keys c)"
  by (auto simp: Object_keys_def)

lemma sorted_desc_precedes:
  assumes srt: "sorted (map f xs)" and x: "x \<in> set xs" and y: "y \<in> set xs"
    and lt: "f x < f y"
  shows "precedes x y xs"
proof -
  from x obtain i where i: "i < length xs" "xs ! i = x" by (auto simp: in_set_conv_nth)
  from y obtain j where j: "j < length xs" "xs ! j = y" by (auto simp: in_set_conv_nth)
  have "i < j"
  proof (rule ccontr)
    assume "\<not> i < j"
    then have "j \<le> i" by simp
    with srt i(1) have "map f xs ! j \<le> map f xs ! i"
      by (simp add: sorted_iff_nth_mono)
    with i j lt show False by simp
  qed
  with i j show ?thesis unfolding precedes_def by blast
qed

text \<open>
  C6. Ranking order. \<^verbatim>\<open>getTabsByRecency\<close> returns exactly the keys of the cache (each once,
  as the keys of an object are distinct), sorted by descending timestamp: a tab with no entry
  is absent, and of two tabs with entries the one with the strictly larger timestamp, the
  one credited later, comes first.
\<close>

theorem getTabsByRecency_order:
  "set (getTabsByRecency s) = fst ` set (cache s)
   \<and> (map_of (cache s) z = None \<longrightarrow> z \<notin> set (getTabsByRecency s))
   \<and> (distinct (map fst (cache s)) \<longrightarrow> distinct (getTabsByRecency s))
   \<and> sorted_wrt (\<lambda>a b. the (map_of (cache s) a) \<ge> the (map_of (cache s) b)) (getTabsByRecency s)
   \<and> (map_of (cache s) x = Some tx \<and> map_of (cache s) y = Some ty \<and> ty < tx \<longrightarrow>
        precedes x y (getTabsByRecency s))"
proof -
  let ?f = "\<lambda>k. - the (map_of (cache s) k)"
  let ?r = "getTabsByRecency s"
  have set_r: "set ?r = fst ` set (cache s)"
    by (simp add: getTabsByRecency_def set_Object_keys)
  have 2: "map_of (cache s) z = None \<longrightarrow> z \<notin> set ?r"
    by (simp add: set_r map_of_eq_None_iff)
  have 3: "distinct (map fst (cache s)) \<longrightarrow> distinct ?r"
    by (simp add: getTabsByRecency_def distinct_Object_keys)
  have srt: "sorted (map ?f ?r)"
    unfolding getTabsByRecency_def by (rule sorted_sort_key)
  then have 4: "sorted_wrt (\<lambda>a b. the (map_of (cache s) a) \<ge> the (map_of (cache s) b)) ?r"
    by (simp add: sorted_map)
  have 5: "map_of (cache s) x = Some tx \<and> map_of (cache s) y = Some ty \<and> ty < tx \<longrightarrow>
        precedes x y ?r"
  proof
    assume a: "map_of (cache s) x = Some tx \<and> map_of (cache s) y = Some ty \<and> ty < tx"
    then have "x \<in> set ?r" "y \<in> set ?r"
      by (auto simp: set_r dest: map_of_SomeD intro: rev_image_eqI)
    moreover from a have "?f x < ?f y" by simp
    ultimately show "precedes x y ?r" by (rule sorted_desc_precedes [OF srt])
  qed
  from set_r 2 3 4 5 show ?thesis by (intro conjI)
qed

lemma s_three_cache: "cache s_three = [(7, 2), (3, 3), (5, 4)]"
  by code_simp

theorem getTabsByRecency_order_witness:
  "set (getTabsByRecency s_three) = {7, 3, 5}
   \<and> 9 \<notin> set (getTabsByRecency s_three)
   \<and> distinct (getTabsByRecency s_three)
   \<and> precedes 5 7 (getTabsByRecency s_three)"
proof -
  note t = getTabsByRecency_order [of s_three 9 5 4 7 2]
  have m: "map_of (cache s_three) 9 = None" "map_of (cache s_three) 5 = Some 4"
    "map_of (cache s_three) 7 = Some 2" "distinct (map fst (cache s_three))"
    "fst ` set (cache s_three) = {7, 3, 5}"
    by (simp_all add: s_three_cache)
  from t m have 1: "set (getTabsByRecency s_three) = {7, 3, 5}" by simp
  from t m have 2: "9 \<notin> set (getTabsByRecency s_three)" by simp
  from t m have 3: "distinct (getTabsByRecency s_three)" by simp
  from t m have 4: "precedes 5 7 (getTabsByRecency s_three)" by simp
  from 1 2 3 4 show ?thesis by (intro conjI)
qed

text \<open>
  The invariants hold in the initial state and are kept by every operation of the tracker,
  so the pending tab and its instant go together, cache keys are distinct, no timestamp is
  ahead of the clock, and the active index of a live jump list is in range.
\<close>

lemma list_all_update:
  "list_all P al \<Longrightarrow> P (k, v) \<Longrightarrow> list_all P (AList.update k v al)"
  by (induction al) auto

lemma list_all_delete: "list_all P al \<Longrightarrow> list_all P (AList.delete k al)"
  by (simp add: AList.delete_eq list_all_iff)

lemma tracker_ok_new: "tracker_ok TabRecency_new"
  by (simp add: tracker_ok_def TabRecency_new_def pending_ok_def clock_ok_def)

lemma clock_ok_mono:
  "list_all (\<lambda>kv. snd kv \<le> n) al \<Longrightarrow> n \<le> m \<Longrightarrow> list_all (\<lambda>kv. snd kv \<le> (m::int)) al"
  by (auto simp: list_all_iff)

lemma tracker_ok_register:
  assumes "tracker_ok s"
  shows "tracker_ok (register currentTime tabId s)"
proof -
  let ?s' = "register currentTime tabId s"
  have 1: "pending_ok ?s'" by (simp add: pending_ok_def register_def Let_def)
  have 2: "clock_ok ?s'"
  proof (cases "\<exists>p t. lastVisited s = Some p \<and> lastVisitedTime s = Some t \<and> TIME_DELTA \<le> currentTime - t")
    case True
    then obtain p t where pt: "lastVisited s = Some p" "lastVisitedTime s = Some t"
      "TIME_DELTA \<le> currentTime - t" by blast
    from assms have "list_all (\<lambda>kv. snd kv \<le> timestamp s) (cache s)"
      by (simp add: tracker_ok_def clock_ok_def)
    then have "list_all (\<lambda>kv. snd kv \<le> timestamp s + 1) (cache s)"
      by (rule clock_ok_mono) simp
    then have "list_all (\<lambda>kv. snd kv \<le> timestamp s + 1)
        (AList.update p (timestamp s + 1) (cache s))"
      by (rule list_all_update) simp
    with register_credit [OF pt, of tabId] show ?thesis by (simp add: clock_ok_def)
  next
    case False
    with assms have "lastVisitedTime s = None \<or>
        (\<exists>t. lastVisitedTime s = Some t \<and> \<not> TIME_DELTA \<le> currentTime - t)"
      by (cases "lastVisited s"; cases "lastVisitedTime s")
        (auto simp: tracker_ok_def pending_ok_def)
    from register_no_credit [OF this, of tabId] assms show ?thesis
      by (simp add: clock_ok_def tracker_ok_def)
  qed
  have 3: "distinct (map fst (cache ?s'))"
    using assms
    by (auto simp: register_def Let_def tracker_ok_def distinct_update split: option.splits)
  have 4: "(case jumpList ?s' of None \<Rightarrow> True | Some jl \<Rightarrow> jl_ok jl)"
    using assms
    by (auto simp: register_def Let_def tracker_ok_def split: option.splits)
  from 1 2 3 4 show ?thesis by (simp add: tracker_ok_def)
qed

lemma tracker_ok_deregister:
  assumes "tracker_ok s"
  shows "tracker_ok (deregister tabId s)"
proof -
  let ?s' = "deregister tabId s"
  have c: "cache ?s' = AList.delete tabId (cache s)"
    and t: "timestamp ?s' = timestamp s"
    by (simp_all add: deregister_def Let_def TabJumpList_deregister_def split: option.splits)
  have 1: "pending_ok ?s'"
    using assms
    by (simp add: pending_ok_def tracker_ok_def deregister_def Let_def TabJumpList_deregister_def
        split: option.splits)
  from assms have 2: "clock_ok ?s'"
    by (simp add: clock_ok_def tracker_ok_def c t list_all_delete)
  from assms have 3: "distinct (map fst (cache ?s'))"
    by (simp add: tracker_ok_def c distinct_delete)
  have 4: "(case jumpList ?s' of None \<Rightarrow> True | Some jl \<Rightarrow> jl_ok jl)"
    using assms
    by (auto simp: deregister_def Let_def tracker_ok_def TabJumpList_deregister_def jl_ok_def
        split: option.splits)
  from 1 2 3 4 show ?thesis by (simp add: tracker_ok_def)
qed

lemma jl_ok_jumpBack_list:
  "tracker_ok s \<Longrightarrow> jl_ok (jumpBack_list s)"
  by (auto simp: jumpBack_list_def tracker_ok_def jl_ok_new split: option.splits)

lemma tracker_ok_jumpBackTab:
  assumes "tracker_ok s"
  shows "tracker_ok (fst (jumpBackTab s))"
proof -
  obtain r jl' where g: "getJumpBackTabId (jumpBack_list s) = (r, jl')"
    by (cases "getJumpBackTabId (jumpBack_list s)")
  from jl_ok_jump_call [OF jl_ok_jumpBack_list [OF assms], of Back] g have "jl_ok jl'" by simp
  with assms g show ?thesis
    by (simp add: jumpBackTab_def tracker_ok_def pending_ok_def clock_ok_def)
qed

lemma tracker_ok_jumpForwardTab:
  assumes "tracker_ok s"
  shows "tracker_ok (fst (jumpForwardTab s))"
proof (cases "jumpList s")
  case None
  with assms show ?thesis by (simp add: jumpForwardTab_def)
next
  case (Some jl)
  obtain r jl' where g: "getJumpForwardTabId jl = (r, jl')"
    by (cases "getJumpForwardTabId jl")
  from assms Some have "jl_ok jl" by (simp add: tracker_ok_def)
  from jl_ok_jump_call [OF this, of Forward] g have "jl_ok jl'" by simp
  with assms g Some show ?thesis
    by (simp add: jumpForwardTab_def tracker_ok_def pending_ok_def clock_ok_def)
qed

lemma tracker_ok_run: "tracker_ok s \<Longrightarrow> tracker_ok (run evs s)"
proof (induction evs arbitrary: s)
  case Nil
  then show ?case by simp
next
  case (Cons e evs)
  then show ?case by (cases e) (simp_all add: tracker_ok_register tracker_ok_deregister)
qed

lemma tracker_ok_execs: "tracker_ok s \<Longrightarrow> tracker_ok (execs cs s)"
proof (induction cs arbitrary: s)
  case Nil
  then show ?case by simp
next
  case (Cons c cs)
  have "tracker_ok (exec c s)"
  proof (cases c)
    case (Call e)
    with tracker_ok_run [OF Cons.prems, of "[e]"] show ?thesis by simp
  next
    case JumpBack
    with Cons.prems show ?thesis by (simp add: tracker_ok_jumpBackTab)
  next
    case JumpForward
    with Cons.prems show ?thesis by (simp add: tracker_ok_jumpForwardTab)
  qed
  then show ?case by (simp add: Cons.IH)
qed






lemma jumpBack_tabs_nonempty:
  assumes "getTabsByRecency s \<noteq> []"
  shows "jumpBack_tabs s =
           (if last (rev (getTabsByRecency s)) = current s then rev (getTabsByRecency s)
            else rev (getTabsByRecency s) @ [current s])
         \<and> jumpBack_tabs s \<noteq> [] \<and> last (jumpBack_tabs s) = current s
         \<and> activeTab (TabJumpList_new (jumpBack_tabs s)) = Some (current s)"
proof -
  from assms have 1: "jumpBack_tabs s =
           (if last (rev (getTabsByRecency s)) = current s then rev (getTabsByRecency s)
            else rev (getTabsByRecency s) @ [current s])"
    by (simp add: jumpBack_tabs_def Let_def)
  with assms have 2: "jumpBack_tabs s \<noteq> []" and 3: "last (jumpBack_tabs s) = current s"
    by (auto split: if_splits)
  from 2 3 have "activeTab (TabJumpList_new (jumpBack_tabs s)) = Some (current s)"
    by (simp add: activeTab_def array_get_def TabJumpList_new_def last_conv_nth nat_diff_distrib')
  with 1 2 3 show ?thesis by simp
qed

text \<open>
  C4. \<^verbatim>\<open>jumpBackTab\<close> pushes the current tab only under \<^verbatim>\<open>tabs.length > 0\<close>. When the
  ranking is empty, as right after the first activation (tab 5 at instant 0, not yet
  credited), the new jump list has no tabs at all: the current tab is not its last element
  and the active index \<open>-1\<close> points at nothing. \<open>jumpBack_tabs_nonempty\<close> above shows that
  the current tab is the last element whenever the ranking is not empty.
\<close>

theorem jumpBackTab_empty_ranking:
  "jumpList (register 0 5 TabRecency_new) = None
   \<and> current (register 0 5 TabRecency_new) = 5
   \<and> getTabsByRecency (register 0 5 TabRecency_new) = []
   \<and> jumpBack_tabs (register 0 5 TabRecency_new) = []
   \<and> jumpList (fst (jumpBackTab (register 0 5 TabRecency_new)))
       = Some \<lparr>tabs = [], activeIdx = - 1, deletedTabs = {}\<rparr>
   \<and> activeTab \<lparr>tabs = [], activeIdx = - 1, deletedTabs = {}\<rparr> = None"
  by code_simp




lemma s_edge_eq:
  "s_edge = \<lparr>timestamp = 5, current = 7, cache = [(7, 4), (3, 5)], lastVisited = Some 7,
     lastVisitedTime = Some 1500,
     jumpList = Some \<lparr>tabs = [7, 3, 7], activeIdx = 0, deletedTabs = {}\<rparr>\<rparr>"
  by code_simp

lemma s_top_eq:
  "s_top = \<lparr>timestamp = 5, current = 7, cache = [(7, 4), (3, 5)], lastVisited = Some 7,
     lastVisitedTime = Some 1500,
     jumpList = Some \<lparr>tabs = [7, 3, 7], activeIdx = 2, deletedTabs = {}\<rparr>\<rparr>"
  by code_simp


text \<open>
  C5, as stated, fails: \<^verbatim>\<open>jumpForwardTab\<close> steps a jump list only if one exists and builds
  none. In \<open>s_two\<close> there is no jump list, and there is none after \<^verbatim>\<open>jumpForwardTab\<close>.
\<close>

theorem jumpForwardTab_no_list_stays_none:
  "jumpList s_two = None \<and> jumpList (fst (jumpForwardTab s_two)) = None"
  by code_simp

lemma getJumpBackTabId_tabs: "tabs (snd (getJumpBackTabId jl)) = tabs jl"
  by (simp add: getJumpBackTabId_def Let_def)

text \<open>
  C5, amended. With no live jump list, \<^verbatim>\<open>jumpForwardTab\<close> leaves the tracker state as it
  is, so the jump list stays absent; only \<^verbatim>\<open>jumpBackTab\<close> builds one, from the reversed
  ranking.
\<close>

theorem jumpForwardTab_builds_nothing:
  assumes "jumpList s = None"
  shows "fst (jumpForwardTab s) = s \<and> jumpList (fst (jumpForwardTab s)) = None
         \<and> (\<exists>jl. jumpList (fst (jumpBackTab s)) = Some jl \<and> tabs jl = jumpBack_tabs s)"
proof -
  from assms have 1: "fst (jumpForwardTab s) = s" by (simp add: jumpForwardTab_def)
  from assms have l: "jumpBack_list s = TabJumpList_new (jumpBack_tabs s)"
    by (simp add: jumpBack_list_def)
  obtain r jl' where g: "getJumpBackTabId (jumpBack_list s) = (r, jl')"
    by (cases "getJumpBackTabId (jumpBack_list s)")
  from getJumpBackTabId_tabs [of "jumpBack_list s"] g l
  have "tabs jl' = jumpBack_tabs s" by (simp add: TabJumpList_new_def)
  with g have "\<exists>jl. jumpList (fst (jumpBackTab s)) = Some jl \<and> tabs jl = jumpBack_tabs s"
    by (simp add: jumpBackTab_def)
  with 1 assms show ?thesis by simp
qed

theorem jumpForwardTab_builds_nothing_witness:
  "jumpList s_two = None \<and> fst (jumpForwardTab s_two) = s_two
   \<and> jumpList (fst (jumpForwardTab s_two)) = None
   \<and> (\<exists>jl. jumpList (fst (jumpBackTab s_two)) = Some jl \<and> tabs jl = jumpBack_tabs s_two)"
proof -
  have h: "jumpList s_two = None" by (simp add: s_two_eq)
  from h jumpForwardTab_builds_nothing [OF h] show ?thesis by (intro conjI) (elim conjE, assumption)+
qed

end
